theory Spec2Isabelle
  imports Main "HOL-Library.Sublist"
begin

section \<open>Data model of the Genius rich-text DOM\<close>

text \<open>
  JavaScript values that occur as attribute values and as link targets: \<open>undefined\<close>
  (reading a property that the object lacks), \<open>null\<close>, a string or a number.
\<close>

datatype jsval = Undefined | Null | Str string | Num int

type_synonym attrs = "string \<rightharpoonup> jsval"

text \<open>Reading \<open>obj.key\<close> of an existing object: a missing property is \<open>undefined\<close>.\<close>

definition get_prop :: "attrs \<Rightarrow> string \<Rightarrow> jsval" where
  "get_prop a k = (case a k of None \<Rightarrow> Undefined | Some v \<Rightarrow> v)"

text \<open>
  A DOM node is \<open>null\<close>, a raw string, or an object with a \<open>tag\<close>, an optional
  \<open>attributes\<close> object (\<open>None\<close> when the property is absent) and its \<open>children\<close>.
  The source reads the children only as \<open>node.children || []\<close>, so an absent child list
  is the empty list.
\<close>

datatype node =
    NullNode
  | Text string
  | Element (tag: string) (attributes: "attrs option") (children: "node list")

record span =
  "text" :: string
  styles :: "string list"
  link :: jsval

text \<open>
  An entry of the output array: \<open>{type, spans}\<close> for a paragraph or blockquote, or
  \<open>{type: 'image', url, alt, width, height}\<close>.
\<close>

datatype item =
    Block string "span list"
  | Image jsval jsval jsval jsval

text \<open>Reading \<open>node.attributes.k\<close> throws a TypeError when \<open>attributes\<close> is absent.\<close>

datatype error = TypeError

section \<open>The tree flattener\<close>

definition newline_span :: span where
  "newline_span = \<lparr>text = [CHR 0x0A], styles = [], link = Null\<rparr>"

definition image_of :: "attrs \<Rightarrow> item" where
  "image_of a = Image (get_prop a ''src'') (get_prop a ''alt'') (get_prop a ''width'') (get_prop a ''height'')"

text \<open>The tag tests of the source: \<open>[...].includes(node.tag)\<close>.\<close>

definition isItalicTag :: "string \<Rightarrow> bool" where
  "isItalicTag t = (t \<in> set [''em'', ''i''])"

definition isBoldTag :: "string \<Rightarrow> bool" where
  "isBoldTag t = (t \<in> set [''b'', ''strong''])"

definition isInlineTag :: "string \<Rightarrow> bool" where
  "isInlineTag t = (t \<in> set [''em'', ''i'', ''b'', ''strong'', ''a''])"

definition isBlockTag :: "string \<Rightarrow> bool" where
  "isBlockTag t = (t \<in> set [''p'', ''blockquote''])"

text \<open>\<open>newStyles\<close>: a copy of the inherited list, with the tag's style pushed at its end.\<close>

definition push_styles :: "string \<Rightarrow> string list \<Rightarrow> string list" where
  "push_styles t currentStyles =
     (let s1 = (if isItalicTag t then currentStyles @ [''italic''] else currentStyles)
      in if isBoldTag t then s1 @ [''bold''] else s1)"

text \<open>
  The default parameter \<open>currentLink = null\<close> of \<open>walk\<close>: an argument that is
  \<open>undefined\<close> is replaced by \<open>null\<close> when the function is entered. (The other two
  defaults never apply below the root: the styles are always an array and the flag a
  boolean.)
\<close>

definition link_param :: "jsval \<Rightarrow> jsval" where
  "link_param currentLink = (if currentLink = Undefined then Null else currentLink)"

text \<open>\<open>newLink = node.tag === 'a' ? node.attributes.href : currentLink\<close>.\<close>

definition new_link :: "string \<Rightarrow> attrs option \<Rightarrow> jsval \<Rightarrow> error + jsval" where
  "new_link t at currentLink =
     (if t = ''a'' then (case at of None \<Rightarrow> Inl TypeError | Some a \<Rightarrow> Inr (get_prop a ''href''))
      else Inr currentLink)"

definition block_type :: "string \<Rightarrow> string" where
  "block_type t = (if t = ''p'' then ''paragraph'' else ''blockquote'')"

text \<open>
  The measure of an argument of \<open>walk\<close> (a node) or of \<open>flatMap_walk\<close> (a child list):
  the size of the tree. Every recursive call is on a child of the current node, or on the
  rest of the child list, so the measure decreases.
\<close>

definition arg_size ::
  "node \<times> string list \<times> jsval \<times> bool \<times> item list
     + node list \<times> string list \<times> jsval \<times> bool \<times> item list \<Rightarrow> nat" where
  "arg_size x = (case x of Inl (n, _) \<Rightarrow> size n | Inr (ns, _) \<Rightarrow> size_list size ns)"

text \<open>
  \<open>walk\<close> of the source, with the array \<open>result\<close> that it pushes to passed in and
  returned; \<open>flatMap_walk\<close> is \<open>children.flatMap(child => walk(child, ...))\<close>, which
  visits the children from left to right and concatenates what they return. An exception
  abandons the whole call. A falsy node (\<open>null\<close>, or the empty string) returns nothing.
  The body reads \<open>currentLink\<close> after its default has been applied.
\<close>

function (sequential)
  walk :: "node \<Rightarrow> string list \<Rightarrow> jsval \<Rightarrow> bool \<Rightarrow> item list
             \<Rightarrow> error + (span list \<times> item list)"
and flatMap_walk :: "node list \<Rightarrow> string list \<Rightarrow> jsval \<Rightarrow> bool \<Rightarrow> item list
             \<Rightarrow> error + (span list \<times> item list)"
where
  "walk NullNode currentStyles currentLink isInsideBlock result = Inr ([], result)"
| "walk (Text s) currentStyles currentLink isInsideBlock result =
     (if s = [] then Inr ([], result)
      else Inr ([\<lparr>text = s, styles = currentStyles, link = link_param currentLink\<rparr>],
                result))"
| "walk (Element t at cs) currentStyles currentLink isInsideBlock result =
     (if t = ''br'' then Inr ([newline_span], result)
      else if t = ''img'' then
        (case at of
           None \<Rightarrow> Inl TypeError
         | Some a \<Rightarrow> Inr ([], result @ [image_of a]))
      else if isInlineTag t then
        (case new_link t at (link_param currentLink) of
           Inl e \<Rightarrow> Inl e
         | Inr newLink \<Rightarrow> flatMap_walk cs (push_styles t currentStyles) newLink True result)
      else
        (case flatMap_walk cs currentStyles (link_param currentLink)
                (if isBlockTag t then True else isInsideBlock) result of
           Inl e \<Rightarrow> Inl e
         | Inr (childrenSpans, result') \<Rightarrow>
             if isBlockTag t \<and> \<not> isInsideBlock then
               (if length childrenSpans > 0
                then Inr ([], result' @ [Block (block_type t) childrenSpans])
                else Inr ([], result'))
             else Inr (childrenSpans, result')))"
| "flatMap_walk [] currentStyles currentLink isInsideBlock result = Inr ([], result)"
| "flatMap_walk (c # cs) currentStyles currentLink isInsideBlock result =
     (case walk c currentStyles currentLink isInsideBlock result of
        Inl e \<Rightarrow> Inl e
      | Inr (spans, result') \<Rightarrow>
          (case flatMap_walk cs currentStyles currentLink isInsideBlock result' of
             Inl e \<Rightarrow> Inl e
           | Inr (rest, result'') \<Rightarrow> Inr (spans @ rest, result'')))"
  by pat_completeness auto

termination
  by (relation "measure arg_size") (auto simp: arg_size_def)

text \<open>
  \<open>flattenGenius(dom)\<close>: \<open>walk(dom)\<close> with the default arguments (no styles, link
  \<open>null\<close>, not inside a block) on an empty \<open>result\<close>, whose final content is returned;
  what \<open>walk\<close> itself returns at the root is discarded.
\<close>

definition flattenGenius :: "node \<Rightarrow> error + item list" where
  "flattenGenius root =
     (case walk root [] Null False [] of
        Inl e \<Rightarrow> Inl e
      | Inr (spans, result) \<Rightarrow> Inr result)"

section \<open>The upstream client\<close>

text \<open>
  What the handlers send back as a body is \<open>JSON.stringify\<close> of a JavaScript value. Such
  a value is modelled by its structure: an object is the list of its properties in the
  order of the object literal. \<open>error.message\<close> is the text of a thrown error: the text
  built by the upstream client from the upstream status, or the engine's text for a
  TypeError.
\<close>

datatype message =
    GeniusApiError nat string
  | TypeErrorMessage

datatype jv =
    JNull
  | JVal jsval
  | JMessage message
  | JItems "item list"
  | JObj "(string \<times> jv) list"

text \<open>
  The parsed body of an upstream reply, as far as the client reads it:
  \<open>parsed.response.song\<close> or \<open>parsed.response.artist\<close>, with the scalar properties of
  the record, its \<open>description.dom\<close>, and for a song its \<open>album\<close> (\<open>None\<close> when falsy)
  with the names of the album's \<open>primary_artists\<close>. Anything else makes the client throw
  a TypeError when it reads a property of \<open>undefined\<close>.
\<close>

record upstream_album =
  album_props :: attrs
  primary_artists :: "jsval list"

record upstream_record =
  props :: attrs
  description_dom :: node
  album :: "upstream_album option"

datatype upstream_json = SongJson upstream_record | ArtistJson upstream_record | OtherJson

record upstream_reply =
  ok :: bool
  reply_status :: nat
  statusText :: string
  parsed :: upstream_json

text \<open>What a handler does to the outside, in order.\<close>

datatype effect =
    UpstreamFetch string string
  | LimiterCall string
  | CacheMatch
  | CachePut

text \<open>
  \<open>fetchGeniusArtist\<close> and \<open>fetchGeniusSong\<close>: one GET with the bearer token (the
  global \<open>fetch\<close>, here the parameter \<open>upstream\<close>, called with the URL and the token); a
  reply that is not \<open>ok\<close> throws the error with the upstream status, any other failure is
  a TypeError. The result is the thrown message or the projected record.
\<close>

definition fetchGeniusArtist ::
  "(string \<Rightarrow> string \<Rightarrow> upstream_reply) \<Rightarrow> string \<Rightarrow> string \<Rightarrow> (message + jv) \<times> effect list" where
  "fetchGeniusArtist upstream artistId geniusToken =
     (let url = ''https://api.genius.com/artists/'' @ artistId;
          res = upstream url geniusToken
      in (if \<not> ok res then Inl (GeniusApiError (reply_status res) (statusText res))
          else (case parsed res of
                  ArtistJson artist \<Rightarrow>
                    (case flattenGenius (description_dom artist) of
                       Inl e \<Rightarrow> Inl TypeErrorMessage
                     | Inr description \<Rightarrow>
                         Inr (JObj [(''name'', JVal (get_prop (props artist) ''name'')),
                                    (''description'', JItems description),
                                    (''url'', JVal (get_prop (props artist) ''url''))]))
                | _ \<Rightarrow> Inl TypeErrorMessage),
          [UpstreamFetch url geniusToken]))"

definition fetchGeniusSong ::
  "(string \<Rightarrow> string \<Rightarrow> upstream_reply) \<Rightarrow> string \<Rightarrow> string \<Rightarrow> (message + jv) \<times> effect list" where
  "fetchGeniusSong upstream songId geniusToken =
     (let url = ''https://api.genius.com/songs/'' @ songId;
          res = upstream url geniusToken
      in (if \<not> ok res then Inl (GeniusApiError (reply_status res) (statusText res))
          else (case parsed res of
                  SongJson song \<Rightarrow>
                    (case flattenGenius (description_dom song) of
                       Inl e \<Rightarrow> Inl TypeErrorMessage
                     | Inr description \<Rightarrow>
                         (case (case album song of
                                  None \<Rightarrow> Inr JNull
                                | Some al \<Rightarrow>
                                    (case primary_artists al of
                                       [] \<Rightarrow> Inl TypeErrorMessage
                                     | first # others \<Rightarrow>
                                         Inr (JObj
                                           [(''name'', JVal (get_prop (album_props al) ''name'')),
                                            (''primary_artist'', JVal first),
                                            (''release_date'',
                                               JVal (get_prop (album_props al) ''release_date_for_display'')),
                                            (''url'', JVal (get_prop (album_props al) ''url''))]))) of
                            Inl m \<Rightarrow> Inl m
                          | Inr album_full \<Rightarrow>
                              Inr (JObj
                                [(''artist_names'', JVal (get_prop (props song) ''artist_names'')),
                                 (''description'', JItems description),
                                 (''title'', JVal (get_prop (props song) ''title'')),
                                 (''language'', JVal (get_prop (props song) ''language'')),
                                 (''release_date'', JVal (get_prop (props song) ''release_date'')),
                                 (''title_with_featured'',
                                    JVal (get_prop (props song) ''title_with_featured'')),
                                 (''url'', JVal (get_prop (props song) ''url'')),
                                 (''primary_color'',
                                    JVal (get_prop (props song) ''song_art_primary_color'')),
                                 (''secondary_color'',
                                    JVal (get_prop (props song) ''song_art_secondary_color'')),
                                 (''album'', album_full)])))
                | _ \<Rightarrow> Inl TypeErrorMessage),
          [UpstreamFetch url geniusToken]))"

section \<open>The request handlers\<close>

text \<open>
  A request as the handlers read it: the method, the path of its URL, and its headers
  (\<open>headers.get\<close> gives \<open>null\<close>, here \<open>None\<close>, for a header that is absent).
\<close>

record request =
  req_method :: string
  pathname :: string
  req_headers :: "string \<rightharpoonup> string"

datatype body = NullBody | TextBody string | JsonBody jv

record response =
  status :: nat
  headers :: "(string \<times> string) list"
  body :: body

text \<open>
  The bindings of the worker: a binding that is not configured is \<open>undefined\<close>, here
  \<open>None\<close>. The rate limiter answers \<open>success\<close> for a key.
\<close>

record env =
  PROXY_SECRET :: "string option"
  RATE_LIMITER :: "(string \<Rightarrow> bool) option"
  GENIUS_ACCESS_TOKEN :: "string option"

text \<open>The collaborators outside the worker: the edge cache and the upstream API.\<close>

record world =
  cache_match :: "request \<Rightarrow> response option"
  upstream :: "string \<Rightarrow> string \<Rightarrow> upstream_reply"

text \<open>
  \<open>clientSecret !== env.PROXY_SECRET\<close>: the header is a string or \<open>null\<close>, the binding
  a string or \<open>undefined\<close>, and \<open>null\<close> and \<open>undefined\<close> are not strictly equal; the two
  are equal only as equal strings.
\<close>

definition strict_neq :: "string option \<Rightarrow> string option \<Rightarrow> bool" where
  "strict_neq clientSecret secret =
     (case (clientSecret, secret) of (Some a, Some b) \<Rightarrow> a \<noteq> b | _ \<Rightarrow> True)"

text \<open>\<open>path.match(/^\/song\/(\d+)$/)\<close> and its like: the captured digits, if any.\<close>

definition match_id :: "string \<Rightarrow> string \<Rightarrow> string option" where
  "match_id pattern_start path =
     (let rest = drop (length pattern_start) path
      in if take (length pattern_start) path = pattern_start \<and> rest \<noteq> [] \<and>
            list_all (\<lambda>c. c \<in> set ''0123456789'') rest
         then Some rest else None)"

text \<open>\<open>headers.set(name, value)\<close>.\<close>

definition set_header :: "string \<Rightarrow> string \<Rightarrow> (string \<times> string) list \<Rightarrow> (string \<times> string) list" where
  "set_header name v hs =
     (if name \<in> fst ` set hs then map (\<lambda>(k, x). if k = name then (k, v) else (k, x)) hs
      else hs @ [(name, v)])"

text \<open>
  \<open>new Response(body, {status, headers})\<close>. A body that is a string is sent as
  \<open>text/plain\<close> unless the headers given name a content type; the source spells that
  header \<open>Content-Type\<close> wherever it sets it. A \<open>null\<close> body gets no content type.
\<close>

definition new_Response :: "body \<Rightarrow> nat \<Rightarrow> (string \<times> string) list \<Rightarrow> response" where
  "new_Response b s hs =
     \<lparr>status = s,
      headers = (if b \<noteq> NullBody \<and> ''Content-Type'' \<notin> fst ` set hs
                 then hs @ [(''content-type'', ''text/plain;charset=UTF-8'')] else hs),
      body = b\<rparr>"

definition json_cors :: "(string \<times> string) list" where
  "json_cors = [(''Content-Type'', ''application/json''), (''Access-Control-Allow-Origin'', ''*'')]"

text \<open>
  The handler of \<open>worker.js\<close>: the secret, the rate limiter, the cache, the method, the
  token and the route, in this order. The result is the response and what was done to the
  outside on the way.
\<close>

definition fetch :: "world \<Rightarrow> request \<Rightarrow> env \<Rightarrow> response \<times> effect list" where
  "fetch w request env =
     (let clientSecret = req_headers request ''X-Proxy-Secret'' in
      if strict_neq clientSecret (PROXY_SECRET env) then
        (new_Response (JsonBody (JObj [(''error'', JVal (Str ''Unauthorized''))])) 401 json_cors,
         [])
      else
        let limited =
              (case RATE_LIMITER env of
                 None \<Rightarrow> (True, [])
               | Some limit \<Rightarrow>
                   (let clientIP = (case req_headers request ''CF-Connecting-IP'' of
                                      None \<Rightarrow> ''anonymous''
                                    | Some ip \<Rightarrow> if ip = [] then ''anonymous'' else ip)
                    in (limit clientIP, [LimiterCall clientIP])))
        in
        if \<not> fst limited then
          (new_Response (JsonBody (JObj [(''error'', JVal (Str ''Too Many Requests''))])) 429
             json_cors,
           snd limited)
        else
          (case cache_match w request of
             Some cached \<Rightarrow>
               (cached\<lparr>headers := set_header ''X-Proxy-Cache'' ''HIT'' (headers cached)\<rparr>,
                snd limited @ [CacheMatch])
           | None \<Rightarrow>
               if req_method request = ''OPTIONS'' then
                 (new_Response NullBody 200
                    [(''Access-Control-Allow-Origin'', ''*''),
                     (''Access-Control-Allow-Methods'', ''GET, OPTIONS''),
                     (''Access-Control-Allow-Headers'', ''Content-Type, X-Proxy-Secret''),
                     (''Access-Control-Max-Age'', ''86400'')],
                  snd limited @ [CacheMatch])
               else if req_method request \<noteq> ''GET'' then
                 (new_Response (TextBody ''Method not allowed'') 405
                    [(''Access-Control-Allow-Origin'', ''*'')],
                  snd limited @ [CacheMatch])
               else
                 (case GENIUS_ACCESS_TOKEN env of
                    None \<Rightarrow>
                      (new_Response (TextBody ''GENIUS_ACCESS_TOKEN not configured'') 500 [],
                       snd limited @ [CacheMatch])
                  | Some geniusToken \<Rightarrow>
                      if geniusToken = [] then
                        (new_Response (TextBody ''GENIUS_ACCESS_TOKEN not configured'') 500 [],
                         snd limited @ [CacheMatch])
                      else
                        let path = pathname request;
                            routed =
                              (case match_id ''/song/'' path of
                                 Some songId \<Rightarrow>
                                   Some (fetchGeniusSong (upstream w) songId geniusToken)
                               | None \<Rightarrow>
                                   (case match_id ''/artist/'' path of
                                      Some artistId \<Rightarrow>
                                        Some (fetchGeniusArtist (upstream w) artistId geniusToken)
                                    | None \<Rightarrow>
                                        if path = ''/'' \<or> path = [] then
                                          Some (Inr (JObj
                                            [(''message'', JVal (Str ''Genius API Proxy'')),
                                             (''endpoints'', JObj
                                                [(''song'', JVal (Str ''/song/{id}'')),
                                                 (''artist'', JVal (Str ''/artist/{id}''))])]), [])
                                        else None))
                        in
                        (case routed of
                           None \<Rightarrow>
                             (new_Response (JsonBody (JObj [(''error'', JVal (Str ''Not found''))]))
                                404 [],
                              snd limited @ [CacheMatch])
                         | Some (Inr data, eff) \<Rightarrow>
                             (new_Response (JsonBody data) 200
                                [(''Content-Type'', ''application/json''),
                                 (''Access-Control-Allow-Origin'', ''*''),
                                 (''Cache-Control'', ''public, s-maxage=86400, max-age=3600''),
                                 (''X-Proxy-Cache'', ''MISS'')],
                              snd limited @ [CacheMatch] @ eff @ [CachePut])
                         | Some (Inl m, eff) \<Rightarrow>
                             (new_Response (JsonBody (JObj [(''error'', JMessage m)])) 500
                                json_cors,
                              snd limited @ [CacheMatch] @ eff)))))"

text \<open>
  The handler of the other variant of the worker (the second source file): no secret, no
  rate limiter, no cache; the method, the token and the routes.
\<close>

definition cors_only :: "(string \<times> string) list" where
  "cors_only = [(''Access-Control-Allow-Origin'', ''*'')]"

definition fetch_ungated :: "world \<Rightarrow> request \<Rightarrow> env \<Rightarrow> response \<times> effect list" where
  "fetch_ungated w request env =
     (if req_method request = ''OPTIONS'' then
        (new_Response NullBody 200
           [(''Access-Control-Allow-Origin'', ''*''),
            (''Access-Control-Allow-Methods'', ''GET, OPTIONS''),
            (''Access-Control-Allow-Headers'', ''Content-Type''),
            (''Access-Control-Max-Age'', ''86400'')],
         [])
      else if req_method request \<noteq> ''GET'' then
        (new_Response (TextBody ''Method not allowed'') 405 cors_only, [])
      else
        (case (case GENIUS_ACCESS_TOKEN env of None \<Rightarrow> None
               | Some tk \<Rightarrow> if tk = [] then None else Some tk) of
           None \<Rightarrow>
             (new_Response (TextBody ''GENIUS_ACCESS_TOKEN not configured'') 500 cors_only, [])
         | Some geniusToken \<Rightarrow>
             let path = pathname request;
                 ok_headers = [(''Content-Type'', ''application/json''),
                               (''Access-Control-Allow-Origin'', ''*''),
                               (''Cache-Control'', ''public, max-age=3600'')]
             in
             (case match_id ''/song/'' path of
                Some songId \<Rightarrow>
                  (case fetchGeniusSong (upstream w) songId geniusToken of
                     (Inr data, eff) \<Rightarrow> (new_Response (JsonBody data) 200 ok_headers, eff)
                   | (Inl m, eff) \<Rightarrow>
                       (new_Response (JsonBody (JObj [(''error'', JMessage m)])) 500 json_cors,
                        eff))
              | None \<Rightarrow>
                  (case match_id ''/artist/'' path of
                     Some artistId \<Rightarrow>
                       (case fetchGeniusArtist (upstream w) artistId geniusToken of
                          (Inr data, eff) \<Rightarrow> (new_Response (JsonBody data) 200 ok_headers, eff)
                        | (Inl m, eff) \<Rightarrow>
                            (new_Response (JsonBody (JObj [(''error'', JMessage m)])) 500
                               json_cors,
                             eff))
                   | None \<Rightarrow>
                       if path = ''/'' \<or> path = [] then
                         (new_Response
                            (JsonBody (JObj
                               [(''message'', JVal (Str ''Genius API Proxy'')),
                                (''endpoints'', JObj
                                   [(''song'', JVal (Str ''/song/{songId}'')),
                                    (''artist'', JVal (Str ''/artist/{artistId}''))])]))
                            200 json_cors,
                          [])
                       else
                         (new_Response
                            (JsonBody (JObj
                               [(''error'',
                                 JVal (Str ''Not found. Use /song/{id} or /artist/{id}''))]))
                            404 json_cors,
                          [])))))"

section \<open>Notions used to state the properties\<close>


text \<open>A block record is well formed when it holds at least one span.\<close>

fun block_nonempty :: "item \<Rightarrow> bool" where
  "block_nonempty (Block ty spans) = (spans \<noteq> [])"
| "block_nonempty (Image url alt width height) = True"



subsection \<open>The flattening rules, as functions of the tree\<close>

text \<open>
  The tags by their role: italic markers, bold markers and the anchor are the inline
  styling tags; paragraph and blockquote are the block tags.
\<close>

definition italic_marker :: "string \<Rightarrow> bool" where
  "italic_marker t = (t = ''em'' \<or> t = ''i'')"

definition bold_marker :: "string \<Rightarrow> bool" where
  "bold_marker t = (t = ''b'' \<or> t = ''strong'')"

definition inline_marker :: "string \<Rightarrow> bool" where
  "inline_marker t = (italic_marker t \<or> bold_marker t \<or> t = ''a'')"

definition block_marker :: "string \<Rightarrow> bool" where
  "block_marker t = (t = ''p'' \<or> t = ''blockquote'')"

definition block_kind :: "string \<Rightarrow> string" where
  "block_kind t = (if t = ''p'' then ''paragraph'' else ''blockquote'')"

text \<open>The style that a tag applies to the text inside it.\<close>

definition tag_styles :: "string \<Rightarrow> string list" where
  "tag_styles t =
     (if italic_marker t then [''italic''] else if bold_marker t then [''bold''] else [])"

text \<open>
  The link of the text inside a tag: below an anchor its \<open>href\<close>, or \<open>null\<close> when it
  has none; below any other tag the link of the tag itself.
\<close>

definition tag_link :: "string \<Rightarrow> attrs option \<Rightarrow> jsval \<Rightarrow> jsval" where
  "tag_link t at lk =
     (if t = ''a'' then
        (case at of
           None \<Rightarrow> Null
         | Some a \<Rightarrow> (case a ''href'' of
                        None \<Rightarrow> Null
                      | Some v \<Rightarrow> if v = Undefined then Null else v))
      else lk)"

text \<open>The image record of an image tag: its four attributes, \<open>undefined\<close> where absent.\<close>

definition attribute :: "attrs option \<Rightarrow> string \<Rightarrow> jsval" where
  "attribute at k =
     (case at of
        None \<Rightarrow> Undefined
      | Some a \<Rightarrow> (case a k of None \<Rightarrow> Undefined | Some v \<Rightarrow> v))"

definition doc_image :: "attrs option \<Rightarrow> item" where
  "doc_image at =
     Image (attribute at ''src'') (attribute at ''alt'') (attribute at ''width'')
           (attribute at ''height'')"

text \<open>
  The spans of a tree in document order, for text that stands inside a block and inherits
  the styles \<open>st\<close> and the link \<open>lk\<close>: a non-empty text is one span with the styles of
  the style tags around it, outermost first; a line break is the newline span with no
  style and no link; an image gives no span; every other tag gives the spans of its
  children from left to right, its own style added after the inherited ones. Line breaks
  and images are leaves: what stands below them is not read.
\<close>

fun doc_spans :: "string list \<Rightarrow> jsval \<Rightarrow> node \<Rightarrow> span list" where
  "doc_spans st lk NullNode = []"
| "doc_spans st lk (Text s) = (if s = [] then [] else [\<lparr>text = s, styles = st, link = lk\<rparr>])"
| "doc_spans st lk (Element t at cs) =
     (if t = ''br'' then [\<lparr>text = [CHR 0x0A], styles = [], link = Null\<rparr>]
      else if t = ''img'' then []
      else concat (map (doc_spans (st @ tag_styles t) (tag_link t at lk)) cs))"

text \<open>
  The records of a tree in document order: an image stands where its tag stands; a block
  tag that is inside no other block or inline tag gives, after the records of everything
  inside it, one block with the spans of its children, unless there are none; every other
  tag gives the records of its children from left to right. Below an inline tag or a block
  tag everything counts as inside a block.
\<close>

fun doc_output :: "bool \<Rightarrow> string list \<Rightarrow> jsval \<Rightarrow> node \<Rightarrow> item list" where
  "doc_output inside st lk NullNode = []"
| "doc_output inside st lk (Text s) = []"
| "doc_output inside st lk (Element t at cs) =
     (if t = ''br'' then []
      else if t = ''img'' then [doc_image at]
      else if inline_marker t then
        concat (map (doc_output True (st @ tag_styles t) (tag_link t at lk)) cs)
      else if block_marker t \<and> \<not> inside then
        concat (map (doc_output True st lk) cs) @
        (if concat (map (doc_spans st lk) cs) = [] then []
         else [Block (block_kind t) (concat (map (doc_spans st lk) cs))])
      else concat (map (doc_output (block_marker t \<or> inside) st lk) cs))"



text \<open>
  The tags around a node: \<open>leaf_path n path m\<close> says that \<open>m\<close> stands in the tree \<open>n\<close>
  and that \<open>path\<close> lists the tags of the nodes from \<open>n\<close> down to the parent of \<open>m\<close>,
  outermost first, none of them a line break or an image. \<open>path_styles\<close> are the styles
  that these tags apply, in the same order.
\<close>

inductive leaf_path :: "node \<Rightarrow> string list \<Rightarrow> node \<Rightarrow> bool" where
  here: "leaf_path n [] n"
| below: "t \<noteq> ''br'' \<Longrightarrow> t \<noteq> ''img'' \<Longrightarrow> c \<in> set cs \<Longrightarrow> leaf_path c path m \<Longrightarrow>
          leaf_path (Element t at cs) (t # path) m"

code_pred leaf_path .

definition path_styles :: "string list \<Rightarrow> string list" where
  "path_styles path = concat (map tag_styles path)"

text \<open>No \<open>italic\<close> is pushed after a \<open>bold\<close>: every italic precedes every bold.\<close>

fun italic_before_bold :: "string list \<Rightarrow> bool" where
  "italic_before_bold [] = True"
| "italic_before_bold (s # ss) =
     ((s = ''bold'' \<longrightarrow> ''italic'' \<notin> set ss) \<and> italic_before_bold ss)"

fun has_italic_tag :: "node \<Rightarrow> bool" where
  "has_italic_tag NullNode = False"
| "has_italic_tag (Text s) = False"
| "has_italic_tag (Element t at cs) = (italic_marker t \<or> (\<exists>c \<in> set cs. has_italic_tag c))"

text \<open>No italic tag (\<open>em\<close>, \<open>i\<close>) lies inside a bold tag (\<open>b\<close>, \<open>strong\<close>).\<close>

fun no_italic_in_bold :: "node \<Rightarrow> bool" where
  "no_italic_in_bold NullNode = True"
| "no_italic_in_bold (Text s) = True"
| "no_italic_in_bold (Element t at cs) =
     ((bold_marker t \<longrightarrow> (\<forall>c \<in> set cs. \<not> has_italic_tag c)) \<and>
      (\<forall>c \<in> set cs. no_italic_in_bold c))"

text \<open>A paragraph, blockquote or image tag occurs somewhere in the tree.\<close>

fun has_block_or_img :: "node \<Rightarrow> bool" where
  "has_block_or_img NullNode = False"
| "has_block_or_img (Text s) = False"
| "has_block_or_img (Element t at cs) =
     (block_marker t \<or> t = ''img'' \<or> (\<exists>c \<in> set cs. has_block_or_img c))"

text \<open>Every anchor of the tree carries an \<open>attributes\<close> object.\<close>

fun anchors_have_attributes :: "node \<Rightarrow> bool" where
  "anchors_have_attributes NullNode = True"
| "anchors_have_attributes (Text s) = True"
| "anchors_have_attributes (Element t at cs) =
     ((t = ''a'' \<longrightarrow> at \<noteq> None) \<and> (\<forall>c \<in> set cs. anchors_have_attributes c))"

text \<open>Prefixing the output of a run with what \<open>result\<close> held before it.\<close>

definition shift :: "item list \<Rightarrow> error + (span list \<times> item list) \<Rightarrow> error + (span list \<times> item list)" where
  "shift res r = (case r of Inl e \<Rightarrow> Inl e | Inr (sp, out) \<Rightarrow> Inr (sp, res @ out))"

section \<open>Basic facts about the walk\<close>

lemma block_not_special:
  "isBlockTag t \<Longrightarrow> t \<noteq> ''br'' \<and> t \<noteq> ''img'' \<and> \<not> isInlineTag t"
  by (auto simp: isBlockTag_def isInlineTag_def)

lemma walk_br: "walk (Element ''br'' at cs) st lk ib res = Inr ([newline_span], res)"
  by simp

lemma walk_img:
  "walk (Element ''img'' at cs) st lk ib res =
     (case at of None \<Rightarrow> Inl TypeError | Some a \<Rightarrow> Inr ([], res @ [image_of a]))"
  by simp

lemma walk_inline:
  "isInlineTag t \<Longrightarrow>
   walk (Element t at cs) st lk ib res =
     (case new_link t at (link_param lk) of
        Inl e \<Rightarrow> Inl e
      | Inr newLink \<Rightarrow> flatMap_walk cs (push_styles t st) newLink True res)"
  by (auto simp: isInlineTag_def)

lemma walk_plain:
  "t \<noteq> ''br'' \<Longrightarrow> t \<noteq> ''img'' \<Longrightarrow> \<not> isInlineTag t \<Longrightarrow> \<not> isBlockTag t \<Longrightarrow>
   walk (Element t at cs) st lk ib res = flatMap_walk cs st (link_param lk) ib res"
  by (auto split: sum.splits)

lemma walk_block_inside:
  "isBlockTag t \<Longrightarrow>
   walk (Element t at cs) st lk True res = flatMap_walk cs st (link_param lk) True res"
  using block_not_special[of t] by (auto split: sum.splits)

lemma walk_block_top:
  "isBlockTag t \<Longrightarrow>
   walk (Element t at cs) st lk False res =
     (case flatMap_walk cs st (link_param lk) True res of
        Inl e \<Rightarrow> Inl e
      | Inr (childrenSpans, result') \<Rightarrow>
          Inr ([], if childrenSpans = [] then result'
                   else result' @ [Block (block_type t) childrenSpans]))"
  using block_not_special[of t] by (auto split: sum.splits)

lemmas walk_Element = walk.simps(3)
declare walk.simps(3) [simp del]


lemma shift_simps [simp]:
  "shift res (Inl e) = Inl e"
  "shift res (Inr (sp, out)) = Inr (sp, res @ out)"
  by (simp_all add: shift_def)

lemma shift_shift: "shift a (shift b r) = shift (a @ b) r"
  by (cases r) auto

lemma shift_Nil: "shift [] r = r"
  by (cases r) auto

lemma flatMap_walk_shift:
  assumes "\<And>c st lk ib res. c \<in> set cs \<Longrightarrow> walk c st lk ib res = shift res (walk c st lk ib [])"
  shows "flatMap_walk cs st lk ib res = shift res (flatMap_walk cs st lk ib [])"
  using assms
proof (induction cs arbitrary: res)
  case Nil
  show ?case by simp
next
  case (Cons c cs)
  have w: "\<And>r. walk c st lk ib r = shift r (walk c st lk ib [])"
    by (rule Cons.prems) simp
  have f: "\<And>r. flatMap_walk cs st lk ib r = shift r (flatMap_walk cs st lk ib [])"
    by (rule Cons.IH, rule Cons.prems) simp
  show ?case
  proof (cases "walk c st lk ib []")
    case (Inl e)
    then show ?thesis using w[of res] by simp
  next
    case (Inr p)
    obtain sp out where p: "p = (sp, out)" by (cases p)
    show ?thesis
    proof (cases "flatMap_walk cs st lk ib []")
      case (Inl e)
      then show ?thesis using Inr p w[of res] f[of "res @ out"] f[of out] by simp
    next
      case r2: (Inr q)
      obtain sp2 out2 where q: "q = (sp2, out2)" by (cases q)
      show ?thesis using Inr p r2 q w[of res] f[of "res @ out"] f[of out] by simp
    qed
  qed
qed

lemma tag_cases [case_names br img inline block plain]:
  obtains "t = ''br''" | "t = ''img''" | "isInlineTag t" "t \<noteq> ''br''" "t \<noteq> ''img''"
  | "isBlockTag t" | "t \<noteq> ''br''" "t \<noteq> ''img''" "\<not> isInlineTag t" "\<not> isBlockTag t"
  by blast

lemma walk_shift: "walk n st lk ib res = shift res (walk n st lk ib [])"
proof (induction n arbitrary: st lk ib res)
  case NullNode
  show ?case by simp
next
  case (Text s)
  show ?case by simp
next
  case (Element t at cs)
  have f: "\<And>st lk ib res. flatMap_walk cs st lk ib res = shift res (flatMap_walk cs st lk ib [])"
    by (rule flatMap_walk_shift) (rule Element.IH)
  show ?case
  proof (cases t rule: tag_cases)
    case br
    then show ?thesis by (simp add: walk_br)
  next
    case img
    then show ?thesis by (cases at) (simp_all add: walk_img)
  next
    case inline
    show ?thesis
    proof (cases "new_link t at (link_param lk)")
      case (Inl e)
      then show ?thesis by (simp add: walk_inline[OF inline(1)])
    next
      case (Inr nl)
      then show ?thesis by (simp add: walk_inline[OF inline(1)] f[symmetric])
    qed
  next
    case block
    show ?thesis
    proof (cases ib)
      case True
      then show ?thesis by (simp add: walk_block_inside[OF block] f[symmetric])
    next
      case False
      show ?thesis
      proof (cases "flatMap_walk cs st (link_param lk) True []")
        case (Inl e)
        then show ?thesis using False f[of st "link_param lk" True res]
          by (simp add: walk_block_top[OF block])
      next
        case (Inr p)
        obtain sp out where p: "p = (sp, out)" by (cases p)
        show ?thesis using False f[of st "link_param lk" True res] Inr p
          by (simp add: walk_block_top[OF block])
      qed
    qed
  next
    case plain
    show ?thesis by (simp add: walk_plain[OF plain] f[symmetric])
  qed
qed


lemma flatMap_walk_Cons_Nil:
  "flatMap_walk (c # cs) st lk ib [] =
     (case walk c st lk ib [] of
        Inl e \<Rightarrow> Inl e
      | Inr (sp, out) \<Rightarrow>
          (case flatMap_walk cs st lk ib [] of
             Inl e \<Rightarrow> Inl e
           | Inr (rest, out') \<Rightarrow> Inr (sp @ rest, out @ out')))"
proof -
  have f: "\<And>r. flatMap_walk cs st lk ib r = shift r (flatMap_walk cs st lk ib [])"
    by (rule flatMap_walk_shift) (rule walk_shift)
  show ?thesis
  proof (cases "walk c st lk ib []")
    case (Inl e)
    then show ?thesis by simp
  next
    case (Inr p)
    obtain sp out where p: "p = (sp, out)" by (cases p)
    have 1: "flatMap_walk (c # cs) st lk ib [] = 
        (case flatMap_walk cs st lk ib out of
             Inl e \<Rightarrow> Inl e
           | Inr (rest, result'') \<Rightarrow> Inr (sp @ rest, result''))"
      using Inr p by simp
    show ?thesis
      unfolding 1 f[of out] using Inr p
      by (cases "flatMap_walk cs st lk ib []") (auto simp del: flatMap_walk.simps)
  qed
qed



lemma flatMap_walk_out:
  assumes "flatMap_walk cs st lk ib [] = Inr (sp, out)"
    and "\<And>c sp' out'. c \<in> set cs \<Longrightarrow> walk c st lk ib [] = Inr (sp', out') \<Longrightarrow> P out'"
    and "P []" and "\<And>a b. P a \<Longrightarrow> P b \<Longrightarrow> P (a @ b)"
  shows "P out"
  using assms(1,2)
proof (induction cs arbitrary: sp out)
  case Nil
  then show ?case using assms(3) by simp
next
  case (Cons c cs)
  from Cons.prems(1) obtain s1 o1 s2 o2 where w: "walk c st lk ib [] = Inr (s1, o1)"
    and f: "flatMap_walk cs st lk ib [] = Inr (s2, o2)" and e: "out = o1 @ o2"
    by (auto simp: flatMap_walk_Cons_Nil simp del: flatMap_walk.simps split: sum.splits)
  have "P o1" using Cons.prems(2)[OF _ w] by simp
  moreover have "P o2"
    by (rule Cons.IH[OF f]) (rule Cons.prems(2), simp_all)
  ultimately show ?case using e assms(4) by simp
qed

lemma flatMap_walk_spans:
  assumes "flatMap_walk cs st lk ib [] = Inr (sp, out)"
    and "\<And>c sp' out'. c \<in> set cs \<Longrightarrow> walk c st lk ib [] = Inr (sp', out') \<Longrightarrow> P sp'"
    and "P []" and "\<And>a b. P a \<Longrightarrow> P b \<Longrightarrow> P (a @ b)"
  shows "P sp"
  using assms(1,2)
proof (induction cs arbitrary: sp out)
  case Nil
  then show ?case using assms(3) by simp
next
  case (Cons c cs)
  from Cons.prems(1) obtain s1 o1 s2 o2 where w: "walk c st lk ib [] = Inr (s1, o1)"
    and f: "flatMap_walk cs st lk ib [] = Inr (s2, o2)" and e: "sp = s1 @ s2"
    by (auto simp: flatMap_walk_Cons_Nil simp del: flatMap_walk.simps split: sum.splits)
  have "P s1" using Cons.prems(2)[OF _ w] by simp
  moreover have "P s2"
    by (rule Cons.IH[OF f]) (rule Cons.prems(2), simp_all)
  ultimately show ?case using e assms(4) by simp
qed

text \<open>The shapes of a successful walk of a tagged node, by the class of its tag.\<close>

lemma walk_Element_Inr:
  assumes "walk (Element t at cs) st lk ib [] = Inr (sp, out)"
  obtains (br) "t = ''br''" "sp = [newline_span]" "out = []"
  | (img) a where "t = ''img''" "at = Some a" "sp = []" "out = [image_of a]"
  | (inline) nl where "t \<noteq> ''br''" "t \<noteq> ''img''" "isInlineTag t"
      "new_link t at (link_param lk) = Inr nl"
      "flatMap_walk cs (push_styles t st) nl True [] = Inr (sp, out)"
  | (emit) S out' where "isBlockTag t" "\<not> ib"
      "flatMap_walk cs st (link_param lk) True [] = Inr (S, out')"
      "sp = []" "out = (if S = [] then out' else out' @ [Block (block_type t) S])"
  | (nested) "isBlockTag t" "ib" "flatMap_walk cs st (link_param lk) True [] = Inr (sp, out)"
  | (plain) "t \<noteq> ''br''" "t \<noteq> ''img''" "\<not> isInlineTag t" "\<not> isBlockTag t"
      "flatMap_walk cs st (link_param lk) ib [] = Inr (sp, out)"
proof (cases t rule: tag_cases)
  case br
  then show ?thesis using assms that(1) by (simp add: walk_br)
next
  case img
  then show ?thesis using assms that(2) by (cases at) (simp_all add: walk_img)
next
  case inline
  then show ?thesis using assms that(3)
    by (cases "new_link t at (link_param lk)") (simp_all add: walk_inline)
next
  case block
  show ?thesis
  proof (cases ib)
    case True
    then show ?thesis using assms block that(5) by (simp add: walk_block_inside)
  next
    case False
    then show ?thesis using assms block that(4)
      by (cases "flatMap_walk cs st (link_param lk) True []") (auto simp: walk_block_top)
  qed
next
  case plain
  then show ?thesis using assms that(6) by (simp add: walk_plain)
qed

lemma walk_blocks_nonempty:
  "walk n st lk ib [] = Inr (sp, out) \<Longrightarrow> list_all block_nonempty out"
proof (induction n arbitrary: st lk ib sp out)
  case NullNode
  then show ?case by simp
next
  case (Text s)
  then show ?case by (simp split: if_splits)
next
  case (Element t at cs)
  have ch: "\<And>st lk ib sp out. flatMap_walk cs st lk ib [] = Inr (sp, out) \<Longrightarrow> list_all block_nonempty out"
    by (erule flatMap_walk_out) (auto intro: Element.IH)
  from Element.prems show ?case
  proof (cases rule: walk_Element_Inr)
    case (emit S out')
    then show ?thesis using ch[OF emit(3)] by simp
  qed (auto simp: image_of_def dest: ch)
qed


lemma filter_id_all: "list_all P xs \<Longrightarrow> filter P xs = xs"
  by (induction xs) auto


lemma flattenGenius_Inr:
  "flattenGenius root = Inr out \<longleftrightarrow> (\<exists>sp. walk root [] Null False [] = Inr (sp, out))"
  by (auto simp: flattenGenius_def split: sum.splits)

section \<open>The walk against the flattening rules\<close>

lemma markers:
  "isItalicTag t = italic_marker t" "isBoldTag t = bold_marker t"
  "isInlineTag t = inline_marker t" "isBlockTag t = block_marker t"
  "block_type t = block_kind t"
  by (auto simp: isItalicTag_def isBoldTag_def isInlineTag_def isBlockTag_def block_type_def
      italic_marker_def bold_marker_def inline_marker_def block_marker_def block_kind_def)

lemma push_styles_tag_styles: "push_styles t st = st @ tag_styles t"
  by (auto simp: push_styles_def tag_styles_def Let_def markers italic_marker_def bold_marker_def)

lemma link_param_idem [simp]: "link_param (link_param lk) = link_param lk"
  by (simp add: link_param_def)

lemma new_link_tag_link:
  "new_link t at (link_param lk) = Inr nl \<Longrightarrow> link_param nl = tag_link t at (link_param lk)"
  by (auto simp: new_link_def tag_link_def get_prop_def link_param_def
      split: if_splits option.splits)

lemma tag_styles_plain: "\<not> inline_marker t \<Longrightarrow> tag_styles t = []"
  by (simp add: tag_styles_def inline_marker_def)

lemma tag_link_plain: "\<not> inline_marker t \<Longrightarrow> tag_link t at lk = lk"
  by (simp add: tag_link_def inline_marker_def)

lemma block_not_inline: "block_marker t \<Longrightarrow> \<not> inline_marker t \<and> t \<noteq> ''br'' \<and> t \<noteq> ''img''"
  by (auto simp: block_marker_def inline_marker_def italic_marker_def bold_marker_def)

lemma image_of_doc_image: "image_of a = doc_image (Some a)"
  by (simp add: image_of_def doc_image_def attribute_def get_prop_def)

lemma flatMap_walk_reference:
  assumes "flatMap_walk cs st lk ib [] = Inr (sp, out)"
    and "\<And>c sp' out'. c \<in> set cs \<Longrightarrow> walk c st lk ib [] = Inr (sp', out') \<Longrightarrow>
           out' = F c \<and> (ib \<longrightarrow> sp' = G c)"
  shows "out = concat (map F cs) \<and> (ib \<longrightarrow> sp = concat (map G cs))"
  using assms
proof (induction cs arbitrary: sp out)
  case Nil
  then show ?case by simp
next
  case (Cons c cs)
  from Cons.prems(1) obtain s1 o1 s2 o2 where w: "walk c st lk ib [] = Inr (s1, o1)"
    and f: "flatMap_walk cs st lk ib [] = Inr (s2, o2)" and e: "out = o1 @ o2" "sp = s1 @ s2"
    by (auto simp: flatMap_walk_Cons_Nil simp del: flatMap_walk.simps split: sum.splits)
  have 1: "o1 = F c \<and> (ib \<longrightarrow> s1 = G c)" using Cons.prems(2)[OF _ w] by simp
  have 2: "o2 = concat (map F cs) \<and> (ib \<longrightarrow> s2 = concat (map G cs))"
    by (rule Cons.IH[OF f]) (rule Cons.prems(2), simp_all)
  show ?case using 1 2 e by simp
qed

lemma walk_reference:
  "walk n st lk ib [] = Inr (sp, out) \<Longrightarrow>
     out = doc_output ib st (link_param lk) n \<and> (ib \<longrightarrow> sp = doc_spans st (link_param lk) n)"
proof (induction n arbitrary: st lk ib sp out)
  case NullNode
  then show ?case by simp
next
  case (Text s)
  then show ?case by (auto split: if_splits)
next
  case (Element t at cs)
  have ch: "out' = concat (map (doc_output ib' st' (link_param lk')) cs) \<and>
            (ib' \<longrightarrow> sp' = concat (map (doc_spans st' (link_param lk')) cs))"
    if f: "flatMap_walk cs st' lk' ib' [] = Inr (sp', out')" for st' lk' ib' sp' out'
    by (rule flatMap_walk_reference[OF f]) (rule Element.IH)
  from Element.prems show ?case
  proof (cases rule: walk_Element_Inr)
    case br
    then show ?thesis by (simp add: newline_span_def)
  next
    case (img a)
    then show ?thesis by (simp add: image_of_doc_image)
  next
    case (inline nl)
    from ch[OF inline(5)] inline(1-4) new_link_tag_link[OF inline(4)]
    show ?thesis by (simp add: markers push_styles_tag_styles)
  next
    case (emit S out')
    from ch[OF emit(3)] emit block_not_inline[of t]
    show ?thesis by (simp add: markers tag_styles_plain tag_link_plain)
  next
    case nested
    from ch[OF nested(3)] nested block_not_inline[of t]
    show ?thesis by (simp add: markers tag_styles_plain tag_link_plain)
  next
    case plain
    from ch[OF plain(5)] plain
    show ?thesis by (simp add: markers tag_styles_plain tag_link_plain)
  qed
qed

lemma flatten_reference:
  "flattenGenius root = Inr out \<Longrightarrow> out = doc_output False [] Null root"
proof -
  assume "flattenGenius root = Inr out"
  then obtain sp where "walk root [] Null False [] = Inr (sp, out)"
    by (auto simp: flattenGenius_Inr)
  from walk_reference[OF this] show ?thesis by (simp add: link_param_def)
qed



section \<open>The recursive calls of the walk\<close>







section \<open>Styles along a path\<close>

lemma path_styles_simps [simp]:
  "path_styles [] = []" "path_styles (t # path) = tag_styles t @ path_styles path"
  "path_styles (p @ q) = path_styles p @ path_styles q"
  by (simp_all add: path_styles_def)

lemma leaf_path_append:
  "leaf_path n p m \<Longrightarrow> leaf_path m q k \<Longrightarrow> leaf_path n (p @ q) k"
  by (induction rule: leaf_path.induct) (auto intro: leaf_path.intros)

lemma doc_spans_styles:
  "x \<in> set (doc_spans st lk n) \<Longrightarrow>
     x = \<lparr>text = [CHR 0x0A], styles = [], link = Null\<rparr> \<or>
     (\<exists>path s. leaf_path n path (Text s) \<and> text x = s \<and> styles x = st @ path_styles path)"
proof (induction n arbitrary: st lk)
  case NullNode
  then show ?case by simp
next
  case (Text s)
  then have "text x = s \<and> styles x = st @ path_styles []" by (auto split: if_splits)
  then show ?case using leaf_path.here by blast
next
  case (Element t at cs)
  show ?case
  proof (cases "t = ''br''")
    case True
    then show ?thesis using Element.prems by simp
  next
    case nb: False
    show ?thesis
    proof (cases "t = ''img''")
      case True
      then show ?thesis using Element.prems nb by simp
    next
      case ni: False
      from Element.prems nb ni obtain c where c: "c \<in> set cs"
        and x: "x \<in> set (doc_spans (st @ tag_styles t) (tag_link t at lk) c)" by auto
      from Element.IH[OF c x] show ?thesis
      proof
        assume "x = \<lparr>text = [CHR 0x0A], styles = [], link = Null\<rparr>"
        then show ?thesis by simp
      next
        assume "\<exists>path s. leaf_path c path (Text s) \<and> text x = s \<and>
                  styles x = (st @ tag_styles t) @ path_styles path"
        then obtain path s where p: "leaf_path c path (Text s)" "text x = s"
          "styles x = (st @ tag_styles t) @ path_styles path" by blast
        have "leaf_path (Element t at cs) (t # path) (Text s)"
          using nb ni c p(1) by (rule leaf_path.below)
        moreover have "styles x = st @ path_styles (t # path)" using p(3) by simp
        ultimately show ?thesis using p(2) by blast
      qed
    qed
  qed
qed

lemma doc_output_blocks:
  "Block ty spans \<in> set (doc_output ib st lk n) \<Longrightarrow>
     \<exists>path t at cs st' lk'. leaf_path n path (Element t at cs) \<and> block_marker t \<and>
        ty = block_kind t \<and> st' = st @ path_styles path \<and>
        spans = concat (map (doc_spans st' lk') cs)"
proof (induction n arbitrary: ib st lk)
  case NullNode
  then show ?case by simp
next
  case (Text s)
  then show ?case by simp
next
  case (Element t at cs)
  have down: ?case
    if c: "c \<in> set cs"
      and m: "Block ty spans \<in> set (doc_output ib' (st @ tag_styles t) lk' c)"
      and nb: "t \<noteq> ''br''" and ni: "t \<noteq> ''img''" for c ib' lk'
  proof -
    from Element.IH[OF c m] obtain path t' at' cs' st' lk'' where
      p: "leaf_path c path (Element t' at' cs')" "block_marker t'" "ty = block_kind t'"
         "st' = (st @ tag_styles t) @ path_styles path"
         "spans = concat (map (doc_spans st' lk'') cs')" by blast
    have "leaf_path (Element t at cs) (t # path) (Element t' at' cs')"
      using nb ni c p(1) by (rule leaf_path.below)
    moreover have "st' = st @ path_styles (t # path)" using p(4) by simp
    ultimately show ?thesis using p(2,3,5) by blast
  qed
  show ?case
  proof (cases "t = ''br'' \<or> t = ''img''")
    case True
    then show ?thesis using Element.prems by (auto simp: doc_image_def)
  next
    case False
    then have nb: "t \<noteq> ''br''" and ni: "t \<noteq> ''img''" by simp_all
    show ?thesis
    proof (cases "inline_marker t")
      case True
      with Element.prems nb ni obtain c where "c \<in> set cs"
        "Block ty spans \<in> set (doc_output True (st @ tag_styles t) (tag_link t at lk) c)"
        by auto
      then show ?thesis using nb ni by (rule down)
    next
      case nin: False
      then have ts: "tag_styles t = []" by (rule tag_styles_plain)
      show ?thesis
      proof (cases "block_marker t \<and> \<not> ib")
        case True
        from Element.prems nb ni nin True
        have "(\<exists>c \<in> set cs. Block ty spans \<in> set (doc_output True st lk c)) \<or>
              (ty = block_kind t \<and> spans = concat (map (doc_spans st lk) cs))"
          by (auto split: if_splits)
        then show ?thesis
        proof
          assume "\<exists>c \<in> set cs. Block ty spans \<in> set (doc_output True st lk c)"
          then obtain c where "c \<in> set cs"
            "Block ty spans \<in> set (doc_output True (st @ tag_styles t) lk c)"
            using ts by auto
          then show ?thesis using nb ni by (rule down)
        next
          assume a: "ty = block_kind t \<and> spans = concat (map (doc_spans st lk) cs)"
          have "leaf_path (Element t at cs) [] (Element t at cs)" by (rule leaf_path.here)
          moreover have "st = st @ path_styles []" by simp
          ultimately show ?thesis using a True by blast
        qed
      next
        case False
        with Element.prems nb ni nin obtain c where "c \<in> set cs"
          "Block ty spans \<in> set (doc_output (block_marker t \<or> ib) (st @ tag_styles t) lk c)"
          using ts by auto
        then show ?thesis using nb ni by (rule down)
      qed
    qed
  qed
qed

lemma ibb_Cons_italic: "italic_before_bold (''italic'' # ss) = italic_before_bold ss"
  by simp

lemma leaf_path_no_italic:
  "leaf_path n path m \<Longrightarrow> \<not> has_italic_tag n \<Longrightarrow> ''italic'' \<notin> set (path_styles path)"
  by (induction rule: leaf_path.induct) (auto simp: tag_styles_def)

lemma leaf_path_italic_before_bold:
  "leaf_path n path m \<Longrightarrow> no_italic_in_bold n \<Longrightarrow> italic_before_bold (path_styles path)"
proof (induction rule: leaf_path.induct)
  case (here n)
  show ?case by simp
next
  case (below t c cs path m at)
  have ih: "italic_before_bold (path_styles path)" using below by simp
  show ?case
  proof (cases "italic_marker t")
    case True
    then show ?thesis using ih by (simp add: tag_styles_def)
  next
    case ni: False
    show ?thesis
    proof (cases "bold_marker t")
      case True
      then have "\<not> has_italic_tag c" using below.prems below.hyps(3) by simp
      from leaf_path_no_italic[OF below.hyps(4) this] True ni ih
      show ?thesis by (simp add: tag_styles_def)
    next
      case False
      then show ?thesis using ni ih by (simp add: tag_styles_def)
    qed
  qed
qed

section \<open>Trees without block and image tags\<close>

lemma walk_no_block_no_output:
  "walk n st lk ib [] = Inr (sp, out) \<Longrightarrow> \<not> has_block_or_img n \<Longrightarrow> out = []"
proof (induction n arbitrary: st lk ib sp out)
  case NullNode
  then show ?case by simp
next
  case (Text s)
  then show ?case by (auto split: if_splits)
next
  case (Element t at cs)
  have ch: "out' = []" if f: "flatMap_walk cs st' lk' ib' [] = Inr (sp', out')"
    for st' lk' ib' sp' out'
  proof (rule flatMap_walk_out[OF f])
    fix c sp'' out''
    assume c: "c \<in> set cs" and w: "walk c st' lk' ib' [] = Inr (sp'', out'')"
    have "\<not> has_block_or_img c" using Element.prems(2) c by simp
    from Element.IH[OF c w this] show "out'' = []" .
  qed simp_all
  from Element.prems(1) show ?case
  proof (cases rule: walk_Element_Inr)
    case br
    then show ?thesis by simp
  next
    case (img a)
    then show ?thesis using Element.prems(2) by simp
  next
    case (inline nl)
    then show ?thesis using ch by blast
  next
    case (emit S out')
    then show ?thesis using Element.prems(2) by (simp add: markers)
  next
    case nested
    then show ?thesis using Element.prems(2) by (simp add: markers)
  next
    case plain
    then show ?thesis using ch by blast
  qed
qed

lemma flatMap_walk_succeeds:
  assumes "\<And>c. c \<in> set cs \<Longrightarrow> \<exists>r. walk c st lk ib [] = Inr r"
  shows "\<exists>r. flatMap_walk cs st lk ib [] = Inr r"
  using assms
proof (induction cs)
  case Nil
  show ?case by simp
next
  case (Cons c cs)
  have "\<exists>r. walk c st lk ib [] = Inr r" by (rule Cons.prems) simp
  then obtain r1 where 1: "walk c st lk ib [] = Inr r1" by blast
  have "\<exists>r. flatMap_walk cs st lk ib [] = Inr r"
    by (rule Cons.IH) (rule Cons.prems, simp)
  then obtain r2 where 2: "flatMap_walk cs st lk ib [] = Inr r2" by blast
  show ?case using 1 2
    by (cases r1; cases r2) (simp add: flatMap_walk_Cons_Nil del: flatMap_walk.simps)
qed

lemma walk_succeeds:
  "\<not> has_block_or_img n \<Longrightarrow> anchors_have_attributes n \<Longrightarrow> \<exists>r. walk n st lk ib [] = Inr r"
proof (induction n arbitrary: st lk ib)
  case NullNode
  show ?case by simp
next
  case (Text s)
  show ?case by simp
next
  case (Element t at cs)
  have ch: "\<exists>r. flatMap_walk cs st' lk' ib' [] = Inr r" for st' lk' ib'
    by (rule flatMap_walk_succeeds) (use Element in auto)
  show ?case
  proof (cases t rule: tag_cases)
    case br
    then show ?thesis by (simp add: walk_br)
  next
    case img
    then show ?thesis using Element.prems(1) by simp
  next
    case inline
    have "\<exists>nl. new_link t at (link_param lk) = Inr nl"
      using Element.prems(2) by (cases at) (auto simp: new_link_def)
    then obtain nl where "new_link t at (link_param lk) = Inr nl" by blast
    then show ?thesis using ch[of "push_styles t st" nl True] inline by (simp add: walk_inline)
  next
    case block
    then show ?thesis using Element.prems(1) by (simp add: markers)
  next
    case plain
    then show ?thesis using ch[of st "link_param lk" ib] by (simp add: walk_plain)
  qed
qed

section \<open>Properties of the flattener\<close>

text \<open>
  C1. For the DOM \<open>{tag:"p", children:["Hello ", {tag:"b", children:["world"]}, "!"]}\<close>
  the flattener returns exactly one paragraph block with the three spans
  \<open>Hello \<close> (no style), \<open>world\<close> (bold) and \<open>!\<close> (no style), each with link \<open>null\<close>.
\<close>

theorem flatten_hello_world:
  "flattenGenius
     (Element ''p'' at1 [Text ''Hello '', Element ''b'' at2 [Text ''world''], Text ''!''])
   = Inr [Block ''paragraph''
            [\<lparr>text = ''Hello '', styles = [], link = Null\<rparr>,
             \<lparr>text = ''world'', styles = [''bold''], link = Null\<rparr>,
             \<lparr>text = ''!'', styles = [], link = Null\<rparr>]]"
  by (simp add: flattenGenius_def walk_Element push_styles_def new_link_def block_type_def
      link_param_def isInlineTag_def isBlockTag_def isItalicTag_def isBoldTag_def)

text \<open>
  C2. Every paragraph or blockquote record in the output of the flattener holds at least
  one span: a block whose children yield no span is not emitted.
\<close>

theorem blocks_never_empty:
  "flattenGenius root = Inr out \<Longrightarrow> Block ty spans \<in> set out \<Longrightarrow> spans \<noteq> []"
proof -
  assume a: "flattenGenius root = Inr out" and b: "Block ty spans \<in> set out"
  from a obtain sp where "walk root [] Null False [] = Inr (sp, out)"
    by (auto simp: flattenGenius_Inr)
  then have "list_all block_nonempty out" by (rule walk_blocks_nonempty)
  with b have "block_nonempty (Block ty spans)" by (auto simp: list_all_iff)
  then show ?thesis by simp
qed

lemma flatten_text_par:
  "flattenGenius (Element ''p'' None [Text ''x'', Element ''p'' None []]) =
     Inr [Block ''paragraph'' [\<lparr>text = ''x'', styles = [], link = Null\<rparr>]]"
  by (simp add: flattenGenius_def walk_Element block_type_def link_param_def
      isInlineTag_def isBlockTag_def)

theorem blocks_never_empty_witness:
  "flattenGenius (Element ''p'' None [Text ''x'', Element ''p'' None []]) =
     Inr [Block ''paragraph'' [\<lparr>text = ''x'', styles = [], link = Null\<rparr>]] \<and>
   Block ''paragraph'' [\<lparr>text = ''x'', styles = [], link = Null\<rparr>]
     \<in> set [Block ''paragraph'' [\<lparr>text = ''x'', styles = [], link = Null\<rparr>]] \<and>
   [\<lparr>text = ''x'', styles = [], link = Null\<rparr>] \<noteq> []"
  using blocks_never_empty[OF flatten_text_par, of "''paragraph''" "[\<lparr>text = ''x'', styles = [], link = Null\<rparr>]"]
    flatten_text_par
  by simp


















text \<open>
  C6, as stated: in every span whose styles hold both \<open>italic\<close> and \<open>bold\<close>, \<open>italic\<close>
  comes first. This fails: the styles are pushed in nesting order, so an italic tag inside
  a bold tag gives \<open>bold\<close> before \<open>italic\<close>.
\<close>

theorem italic_before_bold_counterexample:
  "flattenGenius (Element ''p'' None [Element ''b'' None [Element ''i'' None [Text ''x'']]]) =
     Inr [Block ''paragraph'' [\<lparr>text = ''x'', styles = [''bold'', ''italic''], link = Null\<rparr>]] \<and>
   \<not> italic_before_bold [''bold'', ''italic'']"
  by (simp add: flattenGenius_def walk_Element push_styles_def new_link_def block_type_def
      link_param_def isInlineTag_def isBlockTag_def isItalicTag_def isBoldTag_def)

text \<open>
  C6, amended. The styles of a span are in application order: every span of every block
  of the output is a newline span without styles, or the span of a text of the tree, and
  then its style list is the list of the styles applied by the tags around that text, from
  the root down, outermost first (an italic marker applies \<open>italic\<close>, a bold marker
  \<open>bold\<close>, any other tag nothing). So in a tree where no italic tag lies inside a bold
  tag, every span has all its \<open>italic\<close> entries before all its \<open>bold\<close> entries.
\<close>

theorem styles_in_nesting_order:
  "flattenGenius root = Inr out \<Longrightarrow> Block ty spans \<in> set out \<Longrightarrow> x \<in> set spans \<Longrightarrow>
     (x = \<lparr>text = [CHR 0x0A], styles = [], link = Null\<rparr> \<or>
      (\<exists>path s. leaf_path root path (Text s) \<and> text x = s \<and>
                 styles x = concat (map tag_styles path))) \<and>
     (no_italic_in_bold root \<longrightarrow> italic_before_bold (styles x))"
proof -
  assume f: "flattenGenius root = Inr out" and b: "Block ty spans \<in> set out"
    and x: "x \<in> set spans"
  from f have "out = doc_output False [] Null root" by (rule flatten_reference)
  with b have "Block ty spans \<in> set (doc_output False [] Null root)" by simp
  from doc_output_blocks[OF this] obtain path0 t at cs st' lk' where
    p: "leaf_path root path0 (Element t at cs)" "block_marker t"
       "st' = [] @ path_styles path0" "spans = concat (map (doc_spans st' lk') cs)" by blast
  from x p(4) obtain c where c: "c \<in> set cs" "x \<in> set (doc_spans st' lk' c)" by auto
  have tb: "t \<noteq> ''br''" "t \<noteq> ''img''" "tag_styles t = []"
    using block_not_inline[OF p(2)] by (simp_all add: tag_styles_plain)
  have A: "x = \<lparr>text = [CHR 0x0A], styles = [], link = Null\<rparr> \<or>
      (\<exists>path s. leaf_path root path (Text s) \<and> text x = s \<and> styles x = path_styles path)"
    using doc_spans_styles[OF c(2)]
  proof
    assume "x = \<lparr>text = [CHR 0x0A], styles = [], link = Null\<rparr>"
    then show ?thesis by simp
  next
    assume "\<exists>path s. leaf_path c path (Text s) \<and> text x = s \<and> styles x = st' @ path_styles path"
    then obtain path1 s where q: "leaf_path c path1 (Text s)" "text x = s"
      "styles x = st' @ path_styles path1" by blast
    have "leaf_path (Element t at cs) (t # path1) (Text s)"
      using tb(1,2) c(1) q(1) by (rule leaf_path.below)
    with p(1) have "leaf_path root (path0 @ t # path1) (Text s)" by (rule leaf_path_append)
    moreover have "styles x = path_styles (path0 @ t # path1)"
      using q(3) p(3) tb(3) by simp
    ultimately show ?thesis using q(2) by blast
  qed
  have B: "italic_before_bold (styles x)" if n: "no_italic_in_bold root"
    using A
  proof
    assume "x = \<lparr>text = [CHR 0x0A], styles = [], link = Null\<rparr>"
    then show ?thesis by simp
  next
    assume "\<exists>path s. leaf_path root path (Text s) \<and> text x = s \<and> styles x = path_styles path"
    then obtain path s where "leaf_path root path (Text s)" "styles x = path_styles path" by blast
    then show ?thesis using leaf_path_italic_before_bold[OF _ n] by simp
  qed
  show ?thesis using A B by (simp add: path_styles_def)
qed

lemma flatten_italic_bold:
  "flattenGenius (Element ''p'' None [Element ''i'' None [Element ''b'' None [Text ''x'']]]) =
     Inr [Block ''paragraph'' [\<lparr>text = ''x'', styles = [''italic'', ''bold''], link = Null\<rparr>]]"
  by (simp add: flattenGenius_def walk_Element push_styles_def new_link_def block_type_def
      link_param_def isInlineTag_def isBlockTag_def isItalicTag_def isBoldTag_def)

lemma leaf_path_italic_bold:
  "leaf_path (Element ''p'' None [Element ''i'' None [Element ''b'' None [Text ''x'']]])
     [''p'', ''i'', ''b''] (Text ''x'')"
proof -
  have a: "leaf_path (Text ''x'') [] (Text ''x'')" by (rule leaf_path.here)
  have b: "leaf_path (Element ''b'' None [Text ''x'']) [''b''] (Text ''x'')"
    by (rule leaf_path.below[OF _ _ _ a]) simp_all
  have c: "leaf_path (Element ''i'' None [Element ''b'' None [Text ''x'']]) [''i'', ''b'']
             (Text ''x'')"
    by (rule leaf_path.below[OF _ _ _ b]) simp_all
  show ?thesis by (rule leaf_path.below[OF _ _ _ c]) simp_all
qed

theorem styles_in_nesting_order_witness:
  "no_italic_in_bold (Element ''p'' None [Element ''i'' None [Element ''b'' None [Text ''x'']]]) \<and>
   flattenGenius (Element ''p'' None [Element ''i'' None [Element ''b'' None [Text ''x'']]]) =
     Inr [Block ''paragraph'' [\<lparr>text = ''x'', styles = [''italic'', ''bold''], link = Null\<rparr>]] \<and>
   leaf_path (Element ''p'' None [Element ''i'' None [Element ''b'' None [Text ''x'']]])
     [''p'', ''i'', ''b''] (Text ''x'') \<and>
   styles \<lparr>text = ''x'', styles = [''italic'', ''bold''], link = Null\<rparr> =
     concat (map tag_styles [''p'', ''i'', ''b'']) \<and>
   italic_before_bold (styles \<lparr>text = ''x'', styles = [''italic'', ''bold''], link = Null\<rparr>)"
proof -
  have n: "no_italic_in_bold (Element ''p'' None [Element ''i'' None [Element ''b'' None [Text ''x'']]])"
    by (simp add: bold_marker_def italic_marker_def)
  have t: "styles \<lparr>text = ''x'', styles = [''italic'', ''bold''], link = Null\<rparr> =
     concat (map tag_styles [''p'', ''i'', ''b''])"
    by (simp add: tag_styles_def bold_marker_def italic_marker_def)
  from styles_in_nesting_order[OF flatten_italic_bold, of "''paragraph''"
      "[\<lparr>text = ''x'', styles = [''italic'', ''bold''], link = Null\<rparr>]"
      "\<lparr>text = ''x'', styles = [''italic'', ''bold''], link = Null\<rparr>"] n
  have "italic_before_bold (styles \<lparr>text = ''x'', styles = [''italic'', ''bold''], link = Null\<rparr>)"
    by simp
  then show ?thesis using n flatten_italic_bold leaf_path_italic_bold t by blast
qed

text \<open>
  C7, as stated: every tree with no block and no image tag gives the empty sequence. This
  fails on an anchor that has no \<open>attributes\<close> object: reading its \<open>href\<close> throws, and
  the flattener returns nothing at all.
\<close>

theorem anchor_without_attributes_counterexample:
  "flattenGenius (Element ''div'' None [Element ''a'' None [Text ''x'']]) = Inl TypeError"
  by (simp add: flattenGenius_def walk_Element new_link_def link_param_def
      isInlineTag_def isBlockTag_def)

text \<open>
  C7, amended. A tree with no paragraph, blockquote or image tag in which every anchor
  carries an \<open>attributes\<close> object gives the empty output: spans that reach no block
  boundary are dropped. (Without the condition on the anchors the flattener still never
  returns anything but the empty sequence.)
\<close>

theorem orphan_spans_dropped:
  "\<not> has_block_or_img root \<Longrightarrow>
     (flattenGenius root = Inr [] \<or> flattenGenius root = Inl TypeError) \<and>
     (anchors_have_attributes root \<longrightarrow> flattenGenius root = Inr [])"
proof -
  assume h: "\<not> has_block_or_img root"
  have a: "flattenGenius root = Inr [] \<or> flattenGenius root = Inl TypeError"
  proof (cases "walk root [] Null False []")
    case (Inl e)
    then show ?thesis by (cases e) (simp add: flattenGenius_def)
  next
    case (Inr r)
    obtain sp out where r: "r = (sp, out)" by (cases r)
    from walk_no_block_no_output[OF Inr[unfolded r] h] Inr r show ?thesis
      by (simp add: flattenGenius_def)
  qed
  have b: "flattenGenius root = Inr []" if "anchors_have_attributes root"
  proof -
    from walk_succeeds[OF h that] obtain r where "walk root [] Null False [] = Inr r" by blast
    with a show ?thesis by (cases r) (simp add: flattenGenius_def)
  qed
  show ?thesis using a b by blast
qed

theorem orphan_spans_dropped_witness:
  "\<not> has_block_or_img (Element ''div'' None [Text ''bare'',
        Element ''a'' (Some [''href'' \<mapsto> Str ''u'']) [Element ''b'' None [Text ''x'']]]) \<and>
   anchors_have_attributes (Element ''div'' None [Text ''bare'',
        Element ''a'' (Some [''href'' \<mapsto> Str ''u'']) [Element ''b'' None [Text ''x'']]]) \<and>
   flattenGenius (Element ''div'' None [Text ''bare'',
        Element ''a'' (Some [''href'' \<mapsto> Str ''u'']) [Element ''b'' None [Text ''x'']]]) = Inr []"
proof -
  have h: "\<not> has_block_or_img (Element ''div'' None [Text ''bare'',
        Element ''a'' (Some [''href'' \<mapsto> Str ''u'']) [Element ''b'' None [Text ''x'']]])"
    by (simp add: block_marker_def)
  have k: "anchors_have_attributes (Element ''div'' None [Text ''bare'',
        Element ''a'' (Some [''href'' \<mapsto> Str ''u'']) [Element ''b'' None [Text ''x'']]])"
    by simp
  from orphan_spans_dropped[OF h] k show ?thesis using h by blast
qed

lemma rel_decreases: "walk_flatMap_walk_rel y x \<Longrightarrow> arg_size y < arg_size x"
  by (erule walk_flatMap_walk_rel.cases) (auto simp: arg_size_def)


text \<open>
  C10. The walk terminates on every tree. \<open>walk_flatMap_walk_rel y x\<close> says that the call
  \<open>x\<close> (of \<open>walk\<close> on a node, or of the \<open>flatMap\<close> loop on a child list) makes the
  recursive call \<open>y\<close>, and \<open>walk_flatMap_walk_dom x\<close> that every chain of recursive
  calls from \<open>x\<close> is finite. Every call is in that domain, and each recursive call is on
  a strictly smaller tree: a child of the current node, or the rest of its child list.
\<close>

theorem walk_terminates:
  "walk_flatMap_walk_dom x \<and> (\<forall>y. walk_flatMap_walk_rel y x \<longrightarrow> arg_size y < arg_size x)"
proof
  have "wfp (\<lambda>y x. (y, x) \<in> measure arg_size)"
    by (simp only: wfp_wf_eq wf_measure)
  then have "Wellfounded.accp (\<lambda>y x. (y, x) \<in> measure arg_size) x"
    by (rule accp_wfpD)
  moreover have "walk_flatMap_walk_rel \<le> (\<lambda>y x. (y, x) \<in> measure arg_size)"
    by (auto dest: rel_decreases)
  ultimately show "walk_flatMap_walk_dom x"
    using accp_subset by blast
  show "\<forall>y. walk_flatMap_walk_rel y x \<longrightarrow> arg_size y < arg_size x"
    by (auto dest: rel_decreases)
qed

theorem walk_terminates_witness:
  "walk_flatMap_walk_dom (Inl (Element ''p'' None [Text ''x''], [], Null, False, [])) \<and>
   walk_flatMap_walk_rel (Inr ([Text ''x''], [], Null, True, []))
      (Inl (Element ''p'' None [Text ''x''], [], Null, False, [])) \<and>
   arg_size (Inr ([Text ''x''], [], Null, True, []) ::
       node \<times> string list \<times> jsval \<times> bool \<times> item list
     + node list \<times> string list \<times> jsval \<times> bool \<times> item list)
     < arg_size (Inl (Element ''p'' None [Text ''x''], [], Null, False, []))"
proof -
  have r: "walk_flatMap_walk_rel
      (Inr ([Text ''x''], [], link_param Null, if isBlockTag ''p'' then True else False, []))
      (Inl (Element ''p'' None [Text ''x''], [], Null, False, []))"
    by (rule walk_flatMap_walk_rel.intros) (simp_all add: isInlineTag_def)
  then have r': "walk_flatMap_walk_rel (Inr ([Text ''x''], [], Null, True, []))
      (Inl (Element ''p'' None [Text ''x''], [], Null, False, []))"
    by (simp add: isBlockTag_def link_param_def)
  from walk_terminates[of "Inl (Element ''p'' None [Text ''x''], [], Null, False, [])"] r'
  show ?thesis by blast
qed


section \<open>Properties of the request pipeline\<close>

text \<open>
  C8. A request to the gated handler whose \<open>X-Proxy-Secret\<close> header is not the
  configured secret, or is absent, or meets no configured secret, is answered with 401
  and the body \<open>{"error":"Unauthorized"}\<close>, whatever its method and path; nothing is
  done to the outside: no rate-limiter call, no cache access, no upstream call.
\<close>

theorem wrong_secret_unauthorized:
  "req_headers request ''X-Proxy-Secret'' \<noteq> PROXY_SECRET env \<or>
   req_headers request ''X-Proxy-Secret'' = None \<or> PROXY_SECRET env = None \<Longrightarrow>
   fetch w request env =
     (\<lparr>status = 401,
       headers = [(''Content-Type'', ''application/json''), (''Access-Control-Allow-Origin'', ''*'')],
       body = JsonBody (JObj [(''error'', JVal (Str ''Unauthorized''))])\<rparr>, [])"
proof -
  assume "req_headers request ''X-Proxy-Secret'' \<noteq> PROXY_SECRET env \<or>
   req_headers request ''X-Proxy-Secret'' = None \<or> PROXY_SECRET env = None"
  then have "strict_neq (req_headers request ''X-Proxy-Secret'') (PROXY_SECRET env)"
    by (auto simp: strict_neq_def split: option.splits)
  then show ?thesis by (simp add: fetch_def new_Response_def json_cors_def)
qed

theorem wrong_secret_unauthorized_witness:
  "req_headers \<lparr>req_method = ''GET'', pathname = ''/song/123'',
                 req_headers = [''X-Proxy-Secret'' \<mapsto> ''guess'']\<rparr> ''X-Proxy-Secret''
     \<noteq> PROXY_SECRET \<lparr>PROXY_SECRET = Some ''s3cret'', RATE_LIMITER = Some (\<lambda>k. True),
                        GENIUS_ACCESS_TOKEN = Some ''token''\<rparr> \<and>
   fetch \<lparr>cache_match = (\<lambda>r. None),
          upstream = (\<lambda>u t. \<lparr>ok = False, reply_status = 503, statusText = ''down'', parsed = OtherJson\<rparr>)\<rparr>
         \<lparr>req_method = ''GET'', pathname = ''/song/123'',
                 req_headers = [''X-Proxy-Secret'' \<mapsto> ''guess'']\<rparr>
         \<lparr>PROXY_SECRET = Some ''s3cret'', RATE_LIMITER = Some (\<lambda>k. True),
                        GENIUS_ACCESS_TOKEN = Some ''token''\<rparr> =
     (\<lparr>status = 401,
       headers = [(''Content-Type'', ''application/json''), (''Access-Control-Allow-Origin'', ''*'')],
       body = JsonBody (JObj [(''error'', JVal (Str ''Unauthorized''))])\<rparr>, [])"
proof -
  have h: "req_headers \<lparr>req_method = ''GET'', pathname = ''/song/123'',
                 req_headers = [''X-Proxy-Secret'' \<mapsto> ''guess'']\<rparr> ''X-Proxy-Secret''
     \<noteq> PROXY_SECRET \<lparr>PROXY_SECRET = Some ''s3cret'', RATE_LIMITER = Some (\<lambda>k. True),
                        GENIUS_ACCESS_TOKEN = Some ''token''\<rparr>"
    by simp
  from wrong_secret_unauthorized[OF disjI1, OF h] h show ?thesis by blast
qed

lemma cors_lookup:
  "map_of json_cors ''Access-Control-Allow-Origin'' = Some ''*''"
  "map_of cors_only ''Access-Control-Allow-Origin'' = Some ''*''"
  by (simp_all add: json_cors_def cors_only_def)

lemma fetch_ungated_errors_cors:
  assumes "400 \<le> status (fst (fetch_ungated w request env))"
  shows "map_of (headers (fst (fetch_ungated w request env))) ''Access-Control-Allow-Origin'' = Some ''*''"
proof (cases "req_method request = ''OPTIONS''")
  case True
  then show ?thesis using assms by (simp add: fetch_ungated_def new_Response_def json_cors_def cors_only_def)
next
  case no: False
  show ?thesis
  proof (cases "req_method request = ''GET''")
    case False
    then show ?thesis using no by (simp add: fetch_ungated_def new_Response_def json_cors_def cors_only_def)
  next
    case get: True
    show ?thesis
    proof (cases "case GENIUS_ACCESS_TOKEN env of None \<Rightarrow> None
               | Some tk \<Rightarrow> if tk = [] then None else Some tk")
      case None
      then show ?thesis using no get by (simp add: fetch_ungated_def new_Response_def json_cors_def cors_only_def)
    next
      case (Some geniusToken)
      show ?thesis
      proof (cases "match_id ''/song/'' (pathname request)")
        case song: (Some songId)
        obtain r eff where f: "fetchGeniusSong (upstream w) songId geniusToken = (r, eff)"
          by (cases "fetchGeniusSong (upstream w) songId geniusToken")
        show ?thesis using no get Some song f assms
          by (cases r) (simp_all add: fetch_ungated_def new_Response_def json_cors_def cors_only_def)
      next
        case nosong: None
        show ?thesis
        proof (cases "match_id ''/artist/'' (pathname request)")
          case artist: (Some artistId)
          obtain r eff where f: "fetchGeniusArtist (upstream w) artistId geniusToken = (r, eff)"
            by (cases "fetchGeniusArtist (upstream w) artistId geniusToken")
          show ?thesis using no get Some nosong artist f assms
            by (cases r) (simp_all add: fetch_ungated_def new_Response_def json_cors_def cors_only_def)
        next
          case None
          then show ?thesis using no get Some nosong
            by (simp add: fetch_ungated_def new_Response_def json_cors_def cors_only_def Let_def)
        qed
      qed
    qed
  qed
qed

text \<open>
  On a cache miss, an error response of the gated handler carries the header, or it is the
  404 or the 500 for the missing token, both built with no headers of their own.
\<close>

lemma fetch_errors_cors:
  assumes miss: "cache_match w request = None"
    and err: "400 \<le> status (fst (fetch w request env))"
  shows "map_of (headers (fst (fetch w request env))) ''Access-Control-Allow-Origin'' = Some ''*'' \<or>
         fst (fetch w request env) =
           new_Response (JsonBody (JObj [(''error'', JVal (Str ''Not found''))])) 404 [] \<or>
         fst (fetch w request env) =
           new_Response (TextBody ''GENIUS_ACCESS_TOKEN not configured'') 500 []"
proof (cases "strict_neq (req_headers request ''X-Proxy-Secret'') (PROXY_SECRET env)")
  case True
  then show ?thesis by (simp add: fetch_def new_Response_def json_cors_def)
next
  case sec: False
  define limited where "limited =
              (case RATE_LIMITER env of
                 None \<Rightarrow> (True, [])
               | Some limit \<Rightarrow>
                   (let clientIP = (case req_headers request ''CF-Connecting-IP'' of
                                      None \<Rightarrow> ''anonymous''
                                    | Some ip \<Rightarrow> if ip = [] then ''anonymous'' else ip)
                    in (limit clientIP, [LimiterCall clientIP])))"
  show ?thesis
  proof (cases "fst limited")
    case False
    then show ?thesis using sec
      by (simp add: fetch_def new_Response_def json_cors_def limited_def[symmetric] Let_def)
  next
    case lim: True
    show ?thesis
    proof (cases "req_method request = ''OPTIONS''")
      case True
      then show ?thesis using sec lim miss err
        by (simp add: fetch_def new_Response_def json_cors_def limited_def[symmetric] Let_def)
    next
      case no: False
      show ?thesis
      proof (cases "req_method request = ''GET''")
        case False
        then show ?thesis using sec lim miss no
          by (simp add: fetch_def new_Response_def json_cors_def limited_def[symmetric] Let_def)
      next
        case get: True
        show ?thesis
        proof (cases "GENIUS_ACCESS_TOKEN env")
          case None
          then show ?thesis using sec lim miss no get
            by (simp add: fetch_def new_Response_def json_cors_def limited_def[symmetric] Let_def)
        next
          case (Some geniusToken)
          show ?thesis
          proof (cases "geniusToken = []")
            case True
            then show ?thesis using sec lim miss no get Some
              by (simp add: fetch_def new_Response_def json_cors_def limited_def[symmetric] Let_def)
          next
            case tok: False
            define routed where "routed =
                              (case match_id ''/song/'' (pathname request) of
                                 Some songId \<Rightarrow>
                                   Some (fetchGeniusSong (upstream w) songId geniusToken)
                               | None \<Rightarrow>
                                   (case match_id ''/artist/'' (pathname request) of
                                      Some artistId \<Rightarrow>
                                        Some (fetchGeniusArtist (upstream w) artistId geniusToken)
                                    | None \<Rightarrow>
                                        if pathname request = ''/'' \<or> pathname request = [] then
                                          Some (Inr (JObj
                                            [(''message'', JVal (Str ''Genius API Proxy'')),
                                             (''endpoints'', JObj
                                                [(''song'', JVal (Str ''/song/{id}'')),
                                                 (''artist'', JVal (Str ''/artist/{id}''))])]), [])
                                        else None))"
            show ?thesis
            proof (cases routed)
              case None
              then show ?thesis using sec lim miss no get Some tok
                by (simp add: fetch_def new_Response_def json_cors_def limited_def[symmetric] routed_def[symmetric] Let_def)
            next
              case r: (Some p)
              obtain res eff where p: "p = (res, eff)" by (cases p)
              show ?thesis using sec lim miss no get Some tok r p err
                by (cases res)
                   (simp_all add: fetch_def new_Response_def json_cors_def limited_def[symmetric] routed_def[symmetric] Let_def)
            qed
          qed
        qed
      qed
    qed
  qed
qed

text \<open>
  C9. Error responses are to carry \<open>Access-Control-Allow-Origin: *\<close>. The ungated
  variant of the handler does so on every error (lemma \<open>fetch_ungated_errors_cors\<close>), and
  the gated handler does on its 401, 429, 405 and on the 500 of a failed upstream call
  (lemma \<open>fetch_errors_cors\<close>). But the gated handler builds its 404 and its 500 for the
  missing token with no headers of its own, so that they carry the content type of a string
  body and nothing else: evaluated here on a request with the right secret for an unknown
  path, and on a request with the right secret when no token is configured.
\<close>

theorem not_found_without_cors:
  "fetch \<lparr>cache_match = (\<lambda>r. None),
          upstream = (\<lambda>u t. \<lparr>ok = False, reply_status = 503, statusText = ''down'', parsed = OtherJson\<rparr>)\<rparr>
         \<lparr>req_method = ''GET'', pathname = ''/unknown'',
           req_headers = [''X-Proxy-Secret'' \<mapsto> ''s3cret'']\<rparr>
         \<lparr>PROXY_SECRET = Some ''s3cret'', RATE_LIMITER = None,
           GENIUS_ACCESS_TOKEN = Some ''token''\<rparr> =
     (\<lparr>status = 404, headers = [(''content-type'', ''text/plain;charset=UTF-8'')],
       body = JsonBody (JObj [(''error'', JVal (Str ''Not found''))])\<rparr>, [CacheMatch]) \<and>
   fetch \<lparr>cache_match = (\<lambda>r. None),
          upstream = (\<lambda>u t. \<lparr>ok = False, reply_status = 503, statusText = ''down'', parsed = OtherJson\<rparr>)\<rparr>
         \<lparr>req_method = ''GET'', pathname = ''/song/123'',
           req_headers = [''X-Proxy-Secret'' \<mapsto> ''s3cret'']\<rparr>
         \<lparr>PROXY_SECRET = Some ''s3cret'', RATE_LIMITER = None,
           GENIUS_ACCESS_TOKEN = None\<rparr> =
     (\<lparr>status = 500, headers = [(''content-type'', ''text/plain;charset=UTF-8'')],
       body = TextBody ''GENIUS_ACCESS_TOKEN not configured''\<rparr>, [CacheMatch]) \<and>
   map_of [(''content-type'', ''text/plain;charset=UTF-8'')] ''Access-Control-Allow-Origin'' = None"
  by (simp add: fetch_def new_Response_def json_cors_def strict_neq_def match_id_def)

end
